theory Spec2Isabelle
  imports Main "HOL-Library.Word" "HOL-Library.Multiset"
begin

section \<open>DisplayListLogBuffer: the data model\<close>

text \<open>
  A \<^verbatim>\<open>const char*\<close> label is the address of a string in static memory. Labels are
  stored, compared and used as table keys by address; the characters are read only when a
  line is printed, through the static memory \<open>mem\<close> that the output functions take.
\<close>

type_synonym cstr = nat

text \<open>
  \<^verbatim>\<open>int\<close> is 32 bits wide and \<^verbatim>\<open>nsecs_t\<close> is \<^verbatim>\<open>int64_t\<close>. Both are read as signed
  (\<open>sint\<close>, \<open><s\<close>). Their arithmetic is that of the words and wraps around, which is what
  the target computes where C++ leaves the overflow of a signed operation undefined; the
  statements about durations and levels say in which range no operation overflows.
\<close>

type_synonym cint = "32 word"
type_synonym nsecs_t = "64 word"

definition INT64_MAX :: nsecs_t where
  "INT64_MAX = 0x7FFFFFFFFFFFFFFF"

record OpLog =
  level :: cint
  label :: cstr

record OpEntry =
  mName :: cstr
  mCount :: cint
  mMaxDuration :: nsecs_t
  mTotalDuration :: nsecs_t
  mLastDuration :: nsecs_t

text \<open>
  Modelled from the spec: the constructor \<^verbatim>\<open>OpEntry(name, count, duration)\<close> is declared in
  DisplayListLogBuffer.h, which is not among the sources. The spec: "insert a new OpStat
  with count=1 and all duration fields set to duration"; the call site passes the count.
\<close>

definition new_OpEntry :: "cstr \<Rightarrow> cint \<Rightarrow> nsecs_t \<Rightarrow> OpEntry" where
  "new_OpEntry name cnt duration =
     \<lparr>mName = name, mCount = cnt, mMaxDuration = duration,
      mTotalDuration = duration, mLastDuration = duration\<rparr>"

subsection \<open>KeyedVector and Vector\<close>

text \<open>
  Modelled from the spec: \<^verbatim>\<open>KeyedVector<const char*, OpEntry>\<close> (utils/KeyedVector.h) is not
  among the sources. The spec's StatTable is a mapping from label to OpStat, keyed by label
  identity. The model is the vector of key/value pairs that the class keeps ordered by
  key: \<open>indexOfKey\<close> is the position of the key (\<open>None\<close> for the negative
  \<^verbatim>\<open>NAME_NOT_FOUND\<close>), \<open>add\<close> puts a pair at its place in key order and replaces the value
  of a key already there, \<open>editValueAt\<close> gives access to the value at a position,
  \<open>valueAt\<close> reads it.
\<close>

type_synonym KeyedVector = "(cstr \<times> OpEntry) list"

fun indexOfKey :: "KeyedVector \<Rightarrow> cstr \<Rightarrow> nat option" where
  "indexOfKey [] key = None"
| "indexOfKey ((k, v) # kvs) key =
     (if k = key then Some 0 else map_option Suc (indexOfKey kvs key))"

fun add :: "KeyedVector \<Rightarrow> cstr \<Rightarrow> OpEntry \<Rightarrow> KeyedVector" where
  "add [] key item = [(key, item)]"
| "add ((k, v) # kvs) key item =
     (if key < k then (key, item) # (k, v) # kvs
      else if key = k then (key, item) # kvs
      else (k, v) # add kvs key item)"

definition editValueAt :: "KeyedVector \<Rightarrow> nat \<Rightarrow> (OpEntry \<Rightarrow> OpEntry) \<Rightarrow> KeyedVector" where
  "editValueAt buffer index f = buffer[index := (fst (buffer ! index), f (snd (buffer ! index)))]"

definition valueAt :: "KeyedVector \<Rightarrow> nat \<Rightarrow> OpEntry" where
  "valueAt buffer index = snd (buffer ! index)"

text \<open>\<^verbatim>\<open>Vector::insertAt(item, index)\<close> with \<open>index \<le> size\<close>, as every call here has it.\<close>

definition insertAt :: "OpEntry \<Rightarrow> nat \<Rightarrow> OpEntry list \<Rightarrow> OpEntry list" where
  "insertAt item index list = take index list @ item # drop index list"

subsection \<open>The object\<close>

text \<open>
  The block of \<^verbatim>\<open>BUFFER_SIZE\<close> slots that the constructor allocates is the list \<open>mBuffer\<close>;
  the pointers \<open>mStart\<close>, \<open>mEnd\<close> and \<open>mBufferLast\<close> are slot offsets from
  \<^verbatim>\<open>mBufferFirst\<close>, which is offset 0.
\<close>

definition mBufferFirst :: nat where
  "mBufferFirst = 0"

record DisplayListLogBuffer =
  mBuffer :: "OpLog list"
  mStart :: nat
  mEnd :: nat
  mBufferLast :: nat
  mOpBuffer :: KeyedVector
  mOpBufferPerFrame :: KeyedVector
  mIsLogCommands :: bool

definition NUM_COMMANDS :: nat where
  "NUM_COMMANDS = 50"

definition BUFFER_SIZE :: "nat \<Rightarrow> nat" where
  "BUFFER_SIZE num_commands = num_commands + 1"

text \<open>
  The constructor, for a given value of the macro \<^verbatim>\<open>NUM_COMMANDS\<close>. \<^verbatim>\<open>malloc\<close> does not
  initialise the block, and the constructor does not initialise \<^verbatim>\<open>mIsLogCommands\<close>: the
  slots start as \<open>junk\<close> and the flag as \<open>flag\<close>, both arbitrary. The two tables are
  default-constructed, hence empty.
\<close>

definition new_DisplayListLogBuffer ::
  "nat \<Rightarrow> (nat \<Rightarrow> OpLog) \<Rightarrow> bool \<Rightarrow> DisplayListLogBuffer" where
  "new_DisplayListLogBuffer num_commands junk flag =
     \<lparr>mBuffer = map junk [0..<BUFFER_SIZE num_commands],
      mStart = mBufferFirst,
      mEnd = mBufferFirst,
      mBufferLast = mBufferFirst + BUFFER_SIZE num_commands - 1,
      mOpBuffer = [],
      mOpBufferPerFrame = [],
      mIsLogCommands = flag\<rparr>"

section \<open>writeCommand\<close>

definition writeCommand :: "DisplayListLogBuffer \<Rightarrow> cint \<Rightarrow> cstr \<Rightarrow> DisplayListLogBuffer" where
  "writeCommand s lv lb =
     (let s1 = s\<lparr>mBuffer := (mBuffer s)[mEnd s := \<lparr>level = lv, label = lb\<rparr>]\<rparr>;
          s2 = (if mEnd s1 = mBufferLast s1 then s1\<lparr>mEnd := mBufferFirst\<rparr>
                else s1\<lparr>mEnd := mEnd s1 + 1\<rparr>)
      in if mEnd s2 = mStart s2 then
           (let s3 = s2\<lparr>mStart := mStart s2 + 1\<rparr>
            in if mStart s3 > mBufferLast s3 then s3\<lparr>mStart := mBufferFirst\<rparr> else s3)
         else s2)"

text \<open>Lines 135 to 144: the update of an entry that is already in a table.\<close>

definition updateItem :: "OpEntry \<Rightarrow> nsecs_t \<Rightarrow> OpEntry" where
  "updateItem item duration =
     (let item1 =
        (if mTotalDuration item <s INT64_MAX - duration then
           item\<lparr>mCount := mCount item + 1,
                mMaxDuration := (if mMaxDuration item <s duration then duration
                                 else mMaxDuration item),
                mTotalDuration := mTotalDuration item + duration\<rparr>
         else
           item\<lparr>mCount := 1, mMaxDuration := duration, mTotalDuration := duration\<rparr>)
      in item1\<lparr>mLastDuration := duration\<rparr>)"

text \<open>Lines 131 to 148: the body of the loop over the two tables, for one table.\<close>

definition updateBuffer :: "KeyedVector \<Rightarrow> cstr \<Rightarrow> nsecs_t \<Rightarrow> KeyedVector" where
  "updateBuffer buffer lb duration =
     (case indexOfKey buffer lb of
        Some index \<Rightarrow> editValueAt buffer index (\<lambda>item. updateItem item duration)
      | None \<Rightarrow> add buffer lb (new_OpEntry lb 1 duration))"

text \<open>
  The overload with a duration. \<^verbatim>\<open>DEBUG_DISPLAY_LIST\<close> comes from Debug.h, which is not
  among the sources, and is a parameter. The loop runs over \<open>mOpBuffer\<close> with
  \<^verbatim>\<open>needUpdate\<close> true and over \<open>mOpBufferPerFrame\<close> with \<^verbatim>\<open>needUpdate\<close> the flag
  \<open>mIsLogCommands\<close>, read before the loop.
\<close>

definition writeCommand_duration ::
  "bool \<Rightarrow> DisplayListLogBuffer \<Rightarrow> cint \<Rightarrow> cstr \<Rightarrow> nsecs_t \<Rightarrow> DisplayListLogBuffer" where
  "writeCommand_duration DEBUG_DISPLAY_LIST s lv lb duration =
     (let s2 =
        (if DEBUG_DISPLAY_LIST then
           (let needUpdate1 = mIsLogCommands s;
                s1 = s\<lparr>mOpBuffer := updateBuffer (mOpBuffer s) lb duration\<rparr>
            in if needUpdate1
               then s1\<lparr>mOpBufferPerFrame := updateBuffer (mOpBufferPerFrame s1) lb duration\<rparr>
               else s1)
         else s)
      in writeCommand s2 lv lb)"

section \<open>Output\<close>

text \<open>
  What reaches a sink is the list of the records written to it, one per call of
  \<^verbatim>\<open>fprintf\<close> or \<^verbatim>\<open>ALOGD\<close>. A record is a text, or a row of the statistics: the row that
  the format \<^verbatim>\<open>"%-25s  %10.2f  %10d  %10.2f  %10.2f  %10.2f"\<close> prints for an entry has
  columns computed in \<^verbatim>\<open>float\<close>, and stands here as the entry it prints.
\<close>

datatype out = Text string | StatRow OpEntry

text \<open>The conversions \<^verbatim>\<open>%-25s\<close>, \<^verbatim>\<open>%10s\<close> and \<^verbatim>\<open>%*s\<close> of \<^verbatim>\<open>printf\<close>: a string is padded with
  spaces up to the field width, on the right when the field is left-justified; a negative
  width given for \<^verbatim>\<open>*\<close> is the flag \<^verbatim>\<open>-\<close> with the width negated.\<close>

definition left_justify :: "nat \<Rightarrow> string \<Rightarrow> string" where
  "left_justify width str = str @ replicate (width - length str) CHR '' ''"

definition right_justify :: "nat \<Rightarrow> string \<Rightarrow> string" where
  "right_justify width str = replicate (width - length str) CHR '' '' @ str"

definition printf_star_s :: "int \<Rightarrow> string \<Rightarrow> string" where
  "printf_star_s width str =
     (if width < 0 then left_justify (nat (- width)) str else right_justify (nat width) str)"

text \<open>Line 91: \<^verbatim>\<open>fprintf(file, "%*s%s\n", 2 * tmpBufferPtr->level, "", tmpBufferPtr->label)\<close>.\<close>

definition command_line :: "(cstr \<Rightarrow> string) \<Rightarrow> OpLog \<Rightarrow> string" where
  "command_line mem op = printf_star_s (sint (2 * level op)) [] @ mem (label op) @ [CHR 0x0A]"

text \<open>Lines 163 and 165: the header, \<^verbatim>\<open>"%-25s  %10s  %10s  %10s  %10s  %10s"\<close>.\<close>

definition header_columns :: string where
  "header_columns =
     left_justify 25 ''(ms)'' @ ''  '' @ right_justify 10 ''total'' @ ''  '' @
     right_justify 10 ''count'' @ ''  '' @ right_justify 10 ''average'' @ ''  '' @
     right_justify 10 ''max'' @ ''  '' @ right_justify 10 ''last''"

text \<open>\<^verbatim>\<open>if (file) fprintf(file, ...) else ALOGD(...)\<close>: a \<^verbatim>\<open>FILE*\<close> is \<open>None\<close> when it is
  \<^verbatim>\<open>NULL\<close> and otherwise holds what has been written to the file; \<open>logd\<close> is the log.\<close>

definition emit :: "out \<Rightarrow> out \<Rightarrow> out list option \<times> out list \<Rightarrow> out list option \<times> out list" where
  "emit to_file to_log sinks =
     (case fst sinks of
        Some written \<Rightarrow> (Some (written @ [to_file]), snd sinks)
      | None \<Rightarrow> (None, snd sinks @ [to_log]))"

text \<open>Lines 172 to 180: the position at which the next entry goes into the list.\<close>

fun insertIndex :: "OpEntry \<Rightarrow> OpEntry list \<Rightarrow> nat" where
  "insertIndex entry [] = 0"
| "insertIndex entry (e # es) =
     (if mTotalDuration e <s mTotalDuration entry then 0 else Suc (insertIndex entry es))"

text \<open>Lines 167 to 182: the list built from the \<open>count > 0\<close> values of a table.\<close>

definition orderedList :: "KeyedVector \<Rightarrow> OpEntry list" where
  "orderedList ops =
     fold (\<lambda>i list. let entry = valueAt ops i in insertAt entry (insertIndex entry list) list)
       [1..<length ops] [valueAt ops 0]"

definition outputCommandsInternal ::
  "DisplayListLogBuffer \<Rightarrow> out list option \<Rightarrow> out list
     \<Rightarrow> DisplayListLogBuffer \<times> out list option \<times> out list" where
  "outputCommandsInternal s file logd =
     (if mIsLogCommands s \<or> file \<noteq> None then
        (let ops = (if file = None then mOpBufferPerFrame s else mOpBuffer s);
             count = length ops
         in if count = 0 then (s, file, logd)
            else
              (let sinks1 = emit (Text (CHR 0x0A # header_columns @ [CHR 0x0A]))
                                 (Text header_columns) (file, logd);
                   list = orderedList ops
               in (s, fold (\<lambda>i. emit (StatRow (list ! i)) (StatRow (list ! i)))
                        [0..<count] sinks1)))
      else (s, file, logd))"

text \<open>
  The loop of \<open>outputCommands\<close>, lines 86 to 97, from the cursor \<open>tmpBufferPtr\<close>. The
  result is \<open>None\<close> when the loop never ends, a fault when the cursor leaves the block
  without meeting \<open>mEnd\<close>, and otherwise the cursor and the file at the \<^verbatim>\<open>break\<close>.
\<close>

datatype fault = OutOfBlock

partial_function (option) outputCommands_loop ::
  "DisplayListLogBuffer \<Rightarrow> (cstr \<Rightarrow> string) \<Rightarrow> nat \<Rightarrow> out list \<Rightarrow> (fault + nat \<times> out list) option" where
  "outputCommands_loop s mem tmpBufferPtr file =
     (if tmpBufferPtr = mEnd s then Some (Inr (tmpBufferPtr, file))
      else if \<not> tmpBufferPtr < length (mBuffer s) then Some (Inl OutOfBlock)
      else outputCommands_loop s mem
             (if tmpBufferPtr + 1 > mBufferLast s then mBufferFirst else tmpBufferPtr + 1)
             (file @ [Text (command_line mem (mBuffer s ! tmpBufferPtr))]))"

text \<open>\<open>outputCommands\<close> writes with \<^verbatim>\<open>fprintf\<close> without a test of \<open>file\<close>: the file is
  an open one, given by what has been written to it.\<close>

definition outputCommands ::
  "DisplayListLogBuffer \<Rightarrow> (cstr \<Rightarrow> string) \<Rightarrow> out list \<Rightarrow> out list
     \<Rightarrow> (fault + DisplayListLogBuffer \<times> out list option \<times> out list) option" where
  "outputCommands s mem file logd =
     (case outputCommands_loop s mem (mStart s) file of
        None \<Rightarrow> None
      | Some (Inl f) \<Rightarrow> Some (Inl f)
      | Some (Inr (tmpBufferPtr, file1)) \<Rightarrow> Some (Inr (outputCommandsInternal s (Some file1) logd)))"

section \<open>The hooks\<close>

text \<open>\<open>preFlush\<close>: \<open>val\<close> is what \<^verbatim>\<open>property_get\<close> stores for the property
  \<^verbatim>\<open>debug.hwui.log.duration\<close>, the empty string when it is not set.\<close>

definition preFlush :: "bool \<Rightarrow> string \<Rightarrow> DisplayListLogBuffer \<Rightarrow> DisplayListLogBuffer" where
  "preFlush DEBUG_DISPLAY_LIST val s =
     (if DEBUG_DISPLAY_LIST then
        (let s1 = s\<lparr>mIsLogCommands := (if val = ''1'' then True else False)\<rparr>
         in if mIsLogCommands s1 then s1\<lparr>mOpBufferPerFrame := []\<rparr> else s1)
      else s)"

text \<open>\<open>postFlush\<close> calls \<open>outputCommandsInternal\<close> without an argument: the file is
  \<^verbatim>\<open>NULL\<close>, the default of the declaration.\<close>

definition postFlush ::
  "bool \<Rightarrow> DisplayListLogBuffer \<Rightarrow> out list \<Rightarrow> DisplayListLogBuffer \<times> out list option \<times> out list" where
  "postFlush DEBUG_DISPLAY_LIST s logd =
     (if DEBUG_DISPLAY_LIST then outputCommandsInternal s None logd else (s, None, logd))"

section \<open>Notions used in the statements\<close>

text \<open>The cursors point into the block, which has \<open>mBufferLast + 1\<close> slots.\<close>

definition ring_inv :: "DisplayListLogBuffer \<Rightarrow> bool" where
  "ring_inv s = (length (mBuffer s) = mBufferLast s + 1 \<and> mStart s \<le> mBufferLast s \<and> mEnd s \<le> mBufferLast s)"

text \<open>The slots from \<open>from\<close> up to but excluding \<open>to\<close>, modulo the capacity, and the
  entries that the ring holds in them: the live entries, oldest first.\<close>

definition slots_between :: "nat \<Rightarrow> nat \<Rightarrow> nat \<Rightarrow> nat list" where
  "slots_between capacity from to =
     map (\<lambda>i. (from + i) mod capacity) [0..<(to + capacity - from) mod capacity]"

definition live :: "DisplayListLogBuffer \<Rightarrow> OpLog list" where
  "live s = map (\<lambda>p. mBuffer s ! p) (slots_between (mBufferLast s + 1) (mStart s) (mEnd s))"

text \<open>A sequence of calls of \<open>writeCommand(level, label)\<close>, and a sequence of calls of
  either overload with the entry that each call logs.\<close>

fun writeCommands :: "DisplayListLogBuffer \<Rightarrow> OpLog list \<Rightarrow> DisplayListLogBuffer" where
  "writeCommands s [] = s"
| "writeCommands s (op # ops) = writeCommands (writeCommand s (level op) (label op)) ops"

datatype call = WriteCommand cint cstr | WriteCommandDuration cint cstr nsecs_t

fun logged :: "call \<Rightarrow> OpLog" where
  "logged (WriteCommand lv lb) = \<lparr>level = lv, label = lb\<rparr>"
| "logged (WriteCommandDuration lv lb duration) = \<lparr>level = lv, label = lb\<rparr>"

fun run_call :: "bool \<Rightarrow> DisplayListLogBuffer \<Rightarrow> call \<Rightarrow> DisplayListLogBuffer" where
  "run_call dbg s (WriteCommand lv lb) = writeCommand s lv lb"
| "run_call dbg s (WriteCommandDuration lv lb duration) = writeCommand_duration dbg s lv lb duration"

fun run_calls :: "bool \<Rightarrow> DisplayListLogBuffer \<Rightarrow> call list \<Rightarrow> DisplayListLogBuffer" where
  "run_calls dbg s [] = s"
| "run_calls dbg s (c # cs) = run_calls dbg (run_call dbg s c) cs"

text \<open>Entries in the order of a report: no entry has a larger total than one before it.
  \<open>report\<close> is what \<open>outputCommandsInternal\<close> emits for a table (shown below).\<close>

definition descending :: "OpEntry list \<Rightarrow> bool" where
  "descending list = sorted_wrt (\<lambda>x y. sint (mTotalDuration y) \<le> sint (mTotalDuration x)) list"

definition report :: "out \<Rightarrow> KeyedVector \<Rightarrow> out list" where
  "report header ops = (if ops = [] then [] else header # map StatRow (orderedList ops))"

text \<open>The entry that a table holds for a label.\<close>

definition entryFor :: "KeyedVector \<Rightarrow> cstr \<Rightarrow> OpEntry option" where
  "entryFor buffer key = map_option (valueAt buffer) (indexOfKey buffer key)"

section \<open>The ring\<close>

lemma wrap_dist:
  "a < c \<Longrightarrow> b < c \<Longrightarrow> (b + c - a) mod c = (if a \<le> b then b - a else b + c - a)" for a b c :: nat
  by (simp add: mod_if le_mod_geq)

lemma wrap_index:
  "a < c \<Longrightarrow> i < c \<Longrightarrow> (a + i) mod c = (if a + i < c then a + i else a + i - c)" for a i c :: nat
  by (simp add: mod_if le_mod_geq)

lemma slots_between_length:
  "from < capacity \<Longrightarrow> to < capacity \<Longrightarrow>
   length (slots_between capacity from to) = (if from \<le> to then to - from else to + capacity - from)"
  by (simp add: slots_between_def wrap_dist)

lemma slots_between_nth:
  assumes "from < capacity" "to < capacity" "i < length (slots_between capacity from to)"
  shows "slots_between capacity from to ! i = (if from + i < capacity then from + i else from + i - capacity)"
proof -
  have "i < capacity" using assms by (simp add: slots_between_length split: if_splits)
  then show ?thesis using assms by (simp add: slots_between_def wrap_index)
qed

lemma slots_between_same: "from < capacity \<Longrightarrow> slots_between capacity from from = []"
  by (simp add: slots_between_def)

lemma slots_between_step:
  assumes "from < capacity" "to < capacity" "from \<noteq> to"
  shows "slots_between capacity from to =
           from # slots_between capacity (if from + 1 > capacity - 1 then 0 else from + 1) to"
proof (rule nth_equalityI)
  show len: "length (slots_between capacity from to) =
        length (from # slots_between capacity (if from + 1 > capacity - 1 then 0 else from + 1) to)"
    using assms by (simp add: slots_between_length) arith
  fix i assume i: "i < length (slots_between capacity from to)"
  show "slots_between capacity from to ! i =
        (from # slots_between capacity (if from + 1 > capacity - 1 then 0 else from + 1) to) ! i"
  proof (cases i)
    case 0
    then show ?thesis using assms i by (simp add: slots_between_nth)
  next
    case (Suc j)
    let ?from' = "if from + 1 > capacity - 1 then 0 else from + 1"
    have f': "?from' < capacity" using assms by auto
    have j: "j < length (slots_between capacity ?from' to)" using i len Suc by simp
    have "slots_between capacity ?from' to ! j = (if ?from' + j < capacity then ?from' + j else ?from' + j - capacity)"
      by (rule slots_between_nth [OF f' assms(2) j])
    moreover have "slots_between capacity from to ! i = (if from + i < capacity then from + i else from + i - capacity)"
      by (rule slots_between_nth [OF assms(1,2) i])
    moreover have "i < capacity" using assms i by (simp add: slots_between_length split: if_splits)
    ultimately show ?thesis using Suc assms(1) by (simp split: if_splits)
  qed
qed


lemma outputCommands_loop_emits:
  assumes "length (mBuffer s) = mBufferLast s + 1" "tmp \<le> mBufferLast s" "mEnd s \<le> mBufferLast s"
  shows "outputCommands_loop s mem tmp written =
           Some (Inr (mEnd s, written @ map (\<lambda>p. Text (command_line mem (mBuffer s ! p)))
                                      (slots_between (mBufferLast s + 1) tmp (mEnd s))))"
  using assms(2)
proof (induction "length (slots_between (mBufferLast s + 1) tmp (mEnd s))" arbitrary: tmp written)
  case 0
  then have "tmp = mEnd s"
    using assms(3) by (simp add: slots_between_length split: if_splits)
  then show ?case
    using assms(3) by (subst outputCommands_loop.simps) (simp add: slots_between_same)
next
  case (Suc k)
  let ?c = "mBufferLast s + 1"
  let ?tmp' = "if tmp + 1 > mBufferLast s then mBufferFirst else tmp + 1"
  have ne: "tmp \<noteq> mEnd s"
    using Suc.hyps(2) Suc.prems by (auto simp: slots_between_same)
  have step: "slots_between ?c tmp (mEnd s) = tmp # slots_between ?c ?tmp' (mEnd s)"
    using slots_between_step [of tmp ?c "mEnd s"] Suc.prems assms(3) ne
    by (simp add: mBufferFirst_def)
  have tmp': "?tmp' \<le> mBufferLast s"
    by (simp add: mBufferFirst_def)
  have k: "k = length (slots_between ?c ?tmp' (mEnd s))"
    using Suc.hyps(2) step by simp
  have "outputCommands_loop s mem tmp written =
          outputCommands_loop s mem ?tmp' (written @ [Text (command_line mem (mBuffer s ! tmp))])"
    using ne Suc.prems assms(1) by (subst outputCommands_loop.simps) simp
  also have "\<dots> = Some (Inr (mEnd s, (written @ [Text (command_line mem (mBuffer s ! tmp))]) @
                 map (\<lambda>p. Text (command_line mem (mBuffer s ! p))) (slots_between ?c ?tmp' (mEnd s))))"
    by (rule Suc.hyps(1) [OF k tmp'])
  finally show ?case
    by (subst step) simp
qed

lemma ring_inv_writeCommand: "ring_inv s \<Longrightarrow> ring_inv (writeCommand s lv lb)"
  by (auto simp: ring_inv_def writeCommand_def Let_def mBufferFirst_def)

lemma length_live:
  "ring_inv s \<Longrightarrow>
   length (live s) = (if mStart s \<le> mEnd s then mEnd s - mStart s
                      else mEnd s + (mBufferLast s + 1) - mStart s)"
  by (simp add: live_def ring_inv_def slots_between_length)

lemma nth_live:
  "ring_inv s \<Longrightarrow> i < length (live s) \<Longrightarrow>
   live s ! i = mBuffer s ! (if mStart s + i < mBufferLast s + 1 then mStart s + i
                             else mStart s + i - (mBufferLast s + 1))"
  by (simp add: live_def ring_inv_def slots_between_nth)


lemma writeCommand_fields:
  "mBufferLast (writeCommand s lv lb) = mBufferLast s"
  "mBuffer (writeCommand s lv lb) = (mBuffer s)[mEnd s := \<lparr>level = lv, label = lb\<rparr>]"
  "mEnd (writeCommand s lv lb) = (if mEnd s = mBufferLast s then 0 else mEnd s + 1)"
  "mStart (writeCommand s lv lb) =
     (if (if mEnd s = mBufferLast s then 0 else mEnd s + 1) = mStart s
      then (if mStart s + 1 > mBufferLast s then 0 else mStart s + 1) else mStart s)"
  "mOpBuffer (writeCommand s lv lb) = mOpBuffer s"
  "mOpBufferPerFrame (writeCommand s lv lb) = mOpBufferPerFrame s"
  "mIsLogCommands (writeCommand s lv lb) = mIsLogCommands s"
  by (simp_all add: writeCommand_def Let_def mBufferFirst_def)

lemma live_writeCommand:
  assumes "ring_inv s"
  shows "live (writeCommand s lv lb) =
           drop (Suc (length (live s)) - mBufferLast s) (live s @ [\<lparr>level = lv, label = lb\<rparr>])"
proof (rule nth_equalityI)
  let ?s' = "writeCommand s lv lb"
  let ?e = "\<lparr>level = lv, label = lb\<rparr>"
  let ?L = "mBufferLast s"
  let ?d = "Suc (length (live s)) - ?L"
  define a where "a = mStart s"
  define b where "b = mEnd s"
  define n where "n = length (live s)"
  define w where "w = (\<lambda>k. if a + k < ?L + 1 then a + k else a + k - (?L + 1))"
  define b' where "b' = (if b = ?L then 0 else b + 1)"
  define a' where "a' = (if b' = a then (if a + 1 > ?L then 0 else a + 1) else a)"
  have inv': "ring_inv ?s'" by (rule ring_inv_writeCommand [OF assms])
  have rng: "a \<le> ?L" "b \<le> ?L" "length (mBuffer s) = ?L + 1"
    using assms by (simp_all add: ring_inv_def a_def b_def)
  have n: "n = (if a \<le> b then b - a else b + (?L + 1) - a)"
    by (simp add: n_def a_def b_def length_live [OF assms])
  have fields: "mBufferLast ?s' = ?L" "mEnd ?s' = b'" "mStart ?s' = a'"
      "mBuffer ?s' = (mBuffer s)[b := ?e]"
    by (simp_all add: writeCommand_fields a_def b_def a'_def b'_def)
  have n': "length (live ?s') = (if a' \<le> b' then b' - a' else b' + (?L + 1) - a')"
    by (simp add: length_live [OF inv'] fields)
  have old: "live s ! k = mBuffer s ! w k" if "k < n" for k
    using nth_live [OF assms, of k] that by (simp add: n_def w_def a_def)
  have new: "live ?s' ! k = (mBuffer s)[b := ?e] ! (if a' + k < ?L + 1 then a' + k else a' + k - (?L + 1))"
    if "k < length (live ?s')" for k
    using nth_live [OF inv' that] by (simp add: fields)
  have w_old: "w k \<noteq> b \<and> w k < ?L + 1" if "k < n" for k
    using that rng n by (auto simp: w_def split: if_splits)
  have w_new: "w n = b"
    using rng n by (auto simp: w_def split: if_splits)
  show len: "length (live ?s') = length (drop ?d (live s @ [?e]))"
  proof (cases "b' = a")
    case True
    then have "n = ?L" using rng n by (auto simp: b'_def split: if_splits)
    then show ?thesis using True rng n' by (auto simp: a'_def b'_def n_def split: if_splits)
  next
    case False
    then have "n < ?L" using rng n by (auto simp: b'_def split: if_splits)
    then show ?thesis using False rng n' n by (auto simp: a'_def b'_def n_def [symmetric] split: if_splits)
  qed
  fix i assume i: "i < length (live ?s')"
  show "live ?s' ! i = drop ?d (live s @ [?e]) ! i"
  proof (cases "b' = a")
    case True
    then have full: "n = ?L" using rng n by (auto simp: b'_def split: if_splits)
    have i': "i < ?L" using i len full by (simp add: n_def)
    have d: "?d = 1" using full by (simp add: n_def)
    have idx: "(if a' + i < ?L + 1 then a' + i else a' + i - (?L + 1)) = w (Suc i)"
      using True rng i' by (auto simp: a'_def w_def split: if_splits)
    have lhs: "live ?s' ! i = (mBuffer s)[b := ?e] ! w (Suc i)"
      by (simp only: new [OF i] idx)
    have rhs: "drop ?d (live s @ [?e]) ! i = (live s @ [?e]) ! Suc i"
      by (simp add: d del: drop_append)
    show ?thesis
    proof (cases "Suc i < n")
      case True
      have "(mBuffer s)[b := ?e] ! w (Suc i) = mBuffer s ! w (Suc i)"
        using w_old [OF True] by simp
      moreover have "(live s @ [?e]) ! Suc i = live s ! Suc i"
        using True by (simp add: nth_append n_def)
      ultimately show ?thesis
        using old [OF True] by (simp only: lhs rhs)
    next
      case False
      then have eq: "Suc i = n" using i' full by simp
      have "(mBuffer s)[b := ?e] ! w (Suc i) = ?e"
        using w_new rng by (simp add: eq)
      moreover have "(live s @ [?e]) ! Suc i = ?e"
        using eq by (simp add: nth_append n_def)
      ultimately show ?thesis
        by (simp only: lhs rhs)
    qed
  next
    case False
    then have notfull: "n < ?L" using rng n by (auto simp: b'_def split: if_splits)
    have d: "?d = 0" using notfull by (simp add: n_def)
    have i': "i \<le> n" using i len d by (simp add: n_def)
    have idx: "(if a' + i < ?L + 1 then a' + i else a' + i - (?L + 1)) = w i"
      using False by (simp add: a'_def w_def)
    have lhs: "live ?s' ! i = (mBuffer s)[b := ?e] ! w i"
      by (simp only: new [OF i] idx)
    have rhs: "drop ?d (live s @ [?e]) ! i = (live s @ [?e]) ! i"
      by (simp add: d del: drop_append)
    show ?thesis
    proof (cases "i < n")
      case True
      have "(mBuffer s)[b := ?e] ! w i = mBuffer s ! w i"
        using w_old [OF True] by simp
      moreover have "(live s @ [?e]) ! i = live s ! i"
        using True by (simp add: nth_append n_def)
      ultimately show ?thesis
        using old [OF True] by (simp only: lhs rhs)
    next
      case False
      then have eq: "i = n" using i' by simp
      have "(mBuffer s)[b := ?e] ! w i = ?e"
        using w_new rng by (simp add: eq)
      moreover have "(live s @ [?e]) ! i = ?e"
        using eq by (simp add: nth_append n_def)
      ultimately show ?thesis
        by (simp only: lhs rhs)
    qed
  qed
qed

lemma OpLog_eta: "\<lparr>level = level op, label = label op\<rparr> = (op :: OpLog)"
  by (cases op) simp

lemma ring_inv_new: "ring_inv (new_DisplayListLogBuffer n junk flag)"
  by (simp add: ring_inv_def new_DisplayListLogBuffer_def BUFFER_SIZE_def mBufferFirst_def)

lemma live_new: "live (new_DisplayListLogBuffer n junk flag) = []"
  by (simp add: live_def new_DisplayListLogBuffer_def BUFFER_SIZE_def mBufferFirst_def slots_between_same)

lemma writeCommand_duration_eq:
  "writeCommand_duration dbg s lv lb d =
     (writeCommand s lv lb)
       \<lparr>mOpBuffer := (if dbg then updateBuffer (mOpBuffer s) lb d else mOpBuffer s),
        mOpBufferPerFrame := (if dbg \<and> mIsLogCommands s then updateBuffer (mOpBufferPerFrame s) lb d
                              else mOpBufferPerFrame s)\<rparr>"
  by (simp add: writeCommand_duration_def writeCommand_def Let_def)

lemma ring_inv_tables [simp]:
  "ring_inv (s\<lparr>mOpBuffer := x, mOpBufferPerFrame := y\<rparr>) = ring_inv s"
  by (simp add: ring_inv_def)

lemma live_tables [simp]:
  "live (s\<lparr>mOpBuffer := x, mOpBufferPerFrame := y\<rparr>) = live s"
  by (simp add: live_def)

lemma ring_inv_run_call: "ring_inv s \<Longrightarrow> ring_inv (run_call dbg s c)"
  by (cases c) (simp_all add: ring_inv_writeCommand writeCommand_duration_eq)

lemma mBufferLast_run_call: "mBufferLast (run_call dbg s c) = mBufferLast s"
  by (cases c) (simp_all add: writeCommand_fields writeCommand_duration_eq)

lemma live_run_call:
  "ring_inv s \<Longrightarrow>
   live (run_call dbg s c) = drop (Suc (length (live s)) - mBufferLast s) (live s @ [logged c])"
  by (cases c) (simp_all add: live_writeCommand writeCommand_duration_eq)

lemma most_recent_snoc:
  "drop (Suc (length (drop (length ws - n) ws)) - n) (drop (length ws - n) ws @ [e]) =
   drop (length (ws @ [e]) - n) (ws @ [e])"
  by (cases "length ws < n") (simp_all add: Suc_diff_le)

lemma run_calls_snoc: "run_calls dbg s (cs @ [c]) = run_call dbg (run_calls dbg s cs) c"
  by (induction cs arbitrary: s) simp_all

lemma writeCommands_snoc:
  "writeCommands s (ws @ [op]) = writeCommand (writeCommands s ws) (level op) (label op)"
  by (induction ws arbitrary: s) simp_all

lemma run_calls_ring:
  "ring_inv (run_calls dbg (new_DisplayListLogBuffer n junk flag) cs) \<and>
   mBufferLast (run_calls dbg (new_DisplayListLogBuffer n junk flag) cs) = n \<and>
   live (run_calls dbg (new_DisplayListLogBuffer n junk flag) cs) =
     drop (length cs - n) (map logged cs)"
proof (induction cs rule: rev_induct)
  case Nil
  show ?case
    by (simp add: ring_inv_new live_new) (simp add: new_DisplayListLogBuffer_def BUFFER_SIZE_def mBufferFirst_def)
next
  case (snoc c cs)
  let ?s = "run_calls dbg (new_DisplayListLogBuffer n junk flag) cs"
  have "live (run_call dbg ?s c) =
          drop (Suc (length (drop (length (map logged cs) - n) (map logged cs))) - n)
               (drop (length (map logged cs) - n) (map logged cs) @ [logged c])"
    using snoc live_run_call [of ?s dbg c] by simp
  also have "\<dots> = drop (length (map logged cs @ [logged c]) - n) (map logged cs @ [logged c])"
    by (rule most_recent_snoc)
  finally show ?case
    using snoc by (simp add: run_calls_snoc ring_inv_run_call mBufferLast_run_call)
qed

lemma writeCommands_ring:
  "ring_inv (writeCommands (new_DisplayListLogBuffer n junk flag) ws) \<and>
   mBufferLast (writeCommands (new_DisplayListLogBuffer n junk flag) ws) = n \<and>
   mOpBuffer (writeCommands (new_DisplayListLogBuffer n junk flag) ws) = [] \<and>
   live (writeCommands (new_DisplayListLogBuffer n junk flag) ws) = drop (length ws - n) ws"
proof (induction ws rule: rev_induct)
  case Nil
  show ?case
    by (simp add: ring_inv_new live_new) (simp add: new_DisplayListLogBuffer_def BUFFER_SIZE_def mBufferFirst_def)
next
  case (snoc op ws)
  let ?s = "writeCommands (new_DisplayListLogBuffer n junk flag) ws"
  have "live (writeCommand ?s (level op) (label op)) =
          drop (Suc (length (drop (length ws - n) ws)) - n) (drop (length ws - n) ws @ [op])"
    using snoc live_writeCommand [of ?s "level op" "label op"] by (simp only: OpLog_eta length_drop)
  also have "\<dots> = drop (length (ws @ [op]) - n) (ws @ [op])"
    by (rule most_recent_snoc)
  finally show ?case
    using snoc by (simp add: writeCommands_snoc ring_inv_writeCommand writeCommand_fields)
qed

section \<open>The report\<close>

lemma insertAt_0: "insertAt entry 0 list = entry # list"
  by (simp add: insertAt_def)

lemma insertAt_Suc: "insertAt entry (Suc index) (e # es) = e # insertAt entry index es"
  by (simp add: insertAt_def)

lemma set_insertAt: "set (insertAt entry index list) = insert entry (set list)"
proof -
  have "set (take index list) \<union> set (drop index list) = set list"
    by (metis append_take_drop_id set_append)
  then show ?thesis by (auto simp: insertAt_def)
qed

lemma mset_insertAt: "mset (insertAt entry index list) = add_mset entry (mset list)"
proof -
  have "mset (take index list) + mset (drop index list) = mset list"
    by (metis append_take_drop_id mset_append)
  then show ?thesis by (simp add: insertAt_def)
qed

lemma descending_insert:
  "descending list \<Longrightarrow> descending (insertAt entry (insertIndex entry list) list)"
proof (induction list)
  case Nil
  show ?case by (simp add: insertAt_0 descending_def)
next
  case (Cons e es)
  show ?case
  proof (cases "mTotalDuration e <s mTotalDuration entry")
    case True
    then show ?thesis
      using Cons.prems by (auto simp: insertAt_0 descending_def word_sless_alt)
  next
    case False
    have "descending (insertAt entry (insertIndex entry es) es)"
      using Cons by (simp add: descending_def)
    then show ?thesis
      using False Cons.prems
      by (auto simp: insertAt_Suc descending_def word_sless_alt set_insertAt)
  qed
qed

lemma values_from_1:
  "map (valueAt ops) [1..<length ops] = map snd (tl ops)"
  by (rule nth_equalityI) (simp_all add: valueAt_def nth_tl)

lemma orderedList_fold:
  "orderedList ops =
     fold (\<lambda>entry list. insertAt entry (insertIndex entry list) list) (map snd (tl ops)) [valueAt ops 0]"
proof -
  have "orderedList ops =
     fold (\<lambda>entry list. insertAt entry (insertIndex entry list) list) (map (valueAt ops) [1..<length ops]) [valueAt ops 0]"
    by (simp add: orderedList_def fold_map comp_def Let_def)
  then show ?thesis by (simp only: values_from_1)
qed

lemma fold_insert_descending:
  "descending acc \<Longrightarrow>
   descending (fold (\<lambda>entry list. insertAt entry (insertIndex entry list) list) es acc)"
  by (induction es arbitrary: acc) (simp_all add: descending_insert)

lemma fold_insert_mset:
  "mset (fold (\<lambda>entry list. insertAt entry (insertIndex entry list) list) es acc) = mset es + mset acc"
  by (induction es arbitrary: acc) (simp_all add: mset_insertAt)

lemma descending_orderedList: "descending (orderedList ops)"
  unfolding orderedList_fold by (rule fold_insert_descending) (simp add: descending_def)

lemma mset_orderedList: "ops \<noteq> [] \<Longrightarrow> mset (orderedList ops) = mset (map snd ops)"
  by (cases ops) (simp_all add: orderedList_fold fold_insert_mset valueAt_def)

lemma length_orderedList: "ops \<noteq> [] \<Longrightarrow> length (orderedList ops) = length ops"
  using mset_orderedList [of ops] by (metis length_map size_mset)

lemma fold_emit_file:
  "fold (\<lambda>i. emit (g i) (h i)) [0..<k] (Some written, logd) = (Some (written @ map g [0..<k]), logd)"
  by (induction k) (simp_all add: emit_def)

lemma fold_emit_log:
  "fold (\<lambda>i. emit (g i) (h i)) [0..<k] (None, logd) = (None, logd @ map h [0..<k])"
  by (induction k) (simp_all add: emit_def)

lemma rows_of_list: "map (\<lambda>i. StatRow (list ! i)) [0..<length list] = map StatRow list"
  by (rule nth_equalityI) simp_all

lemma outputCommandsInternal_file:
  "outputCommandsInternal s (Some written) logd =
     (s, Some (written @ report (Text (CHR 0x0A # header_columns @ [CHR 0x0A])) (mOpBuffer s)), logd)"
proof (cases "mOpBuffer s = []")
  case True
  then show ?thesis by (simp add: outputCommandsInternal_def report_def)
next
  case False
  have "map (\<lambda>i. StatRow (orderedList (mOpBuffer s) ! i)) [0..<length (mOpBuffer s)] =
        map StatRow (orderedList (mOpBuffer s))"
    using rows_of_list [of "orderedList (mOpBuffer s)"] by (simp add: length_orderedList [OF False])
  then show ?thesis
    using False by (simp add: outputCommandsInternal_def report_def Let_def fold_emit_file emit_def)
qed

lemma outputCommandsInternal_log:
  "outputCommandsInternal s None logd =
     (s, None, logd @ (if mIsLogCommands s then report (Text header_columns) (mOpBufferPerFrame s) else []))"
proof (cases "mOpBufferPerFrame s = []")
  case True
  then show ?thesis by (simp add: outputCommandsInternal_def report_def)
next
  case False
  have "map (\<lambda>i. StatRow (orderedList (mOpBufferPerFrame s) ! i)) [0..<length (mOpBufferPerFrame s)] =
        map StatRow (orderedList (mOpBufferPerFrame s))"
    using rows_of_list [of "orderedList (mOpBufferPerFrame s)"] by (simp add: length_orderedList [OF False])
  then show ?thesis
    using False by (simp add: outputCommandsInternal_def report_def Let_def fold_emit_log emit_def)
qed

lemma outputCommands_ring:
  assumes "ring_inv s"
  shows "outputCommands s mem written logd =
           Some (Inr (s, Some (written @ map (\<lambda>op. Text (command_line mem op)) (live s) @
                          report (Text (CHR 0x0A # header_columns @ [CHR 0x0A])) (mOpBuffer s)), logd))"
proof -
  have "outputCommands_loop s mem (mStart s) written =
           Some (Inr (mEnd s, written @ map (\<lambda>p. Text (command_line mem (mBuffer s ! p)))
                                      (slots_between (mBufferLast s + 1) (mStart s) (mEnd s))))"
    using assms by (intro outputCommands_loop_emits) (simp_all add: ring_inv_def)
  then show ?thesis
    by (simp add: outputCommands_def outputCommandsInternal_file live_def comp_def)
qed

lemma header_columns_text:
  "header_columns = ''(ms)                            total       count     average         max        last''"
  by code_simp

section \<open>The tables\<close>

lemma entryFor_map_of: "entryFor buffer key = map_of buffer key"
  by (induction buffer) (auto simp: entryFor_def valueAt_def [abs_def] option.map_comp comp_def)

lemma map_of_add: "map_of (add buffer key item) = (map_of buffer)(key \<mapsto> item)"
  by (induction buffer) (auto simp: fun_upd_twist)

lemma map_of_editValueAt:
  "indexOfKey buffer key = Some index \<Longrightarrow>
   map_of (editValueAt buffer index f) = (map_of buffer)(key \<mapsto> f (valueAt buffer index))"
proof (induction buffer arbitrary: index)
  case Nil
  then show ?case by simp
next
  case (Cons kv kvs)
  obtain k v where kv: "kv = (k, v)" by (cases kv)
  show ?case
  proof (cases "k = key")
    case True
    then show ?thesis using Cons.prems kv by (auto simp: editValueAt_def valueAt_def)
  next
    case False
    then obtain j where j: "indexOfKey kvs key = Some j" "index = Suc j"
      using Cons.prems kv by auto
    have "map_of (editValueAt kvs j f) = (map_of kvs)(key \<mapsto> f (valueAt kvs j))"
      by (rule Cons.IH [OF j(1)])
    then show ?thesis
      using False kv j by (auto simp: editValueAt_def valueAt_def fun_upd_twist)
  qed
qed

lemma entryFor_updateBuffer:
  "entryFor (updateBuffer buffer lb duration) key =
     (if key = lb
      then Some (case entryFor buffer lb of
                   None \<Rightarrow> new_OpEntry lb 1 duration
                 | Some item \<Rightarrow> updateItem item duration)
      else entryFor buffer key)"
proof (cases "indexOfKey buffer lb")
  case None
  then have "map_of buffer lb = None"
    by (simp add: entryFor_map_of [symmetric] entryFor_def)
  then show ?thesis
    using None by (simp add: updateBuffer_def entryFor_map_of map_of_add)
next
  case (Some index)
  then have "map_of buffer lb = Some (valueAt buffer index)"
    by (simp add: entryFor_map_of [symmetric] entryFor_def)
  then show ?thesis
    using Some map_of_editValueAt [OF Some]
    by (simp add: updateBuffer_def entryFor_map_of)
qed

lemma sint_INT64_MAX: "sint INT64_MAX = 2 ^ 63 - 1"
  by (simp add: INT64_MAX_def)

lemma sint_INT64_MAX_minus:
  "0 \<le> sint d \<Longrightarrow> sint (INT64_MAX - d) = 2 ^ 63 - 1 - sint d" for d :: nsecs_t
proof -
  assume d: "0 \<le> sint d"
  have "sint d < 2 ^ 63" using sint_lt [of d] by simp
  then have "signed_take_bit 63 (2 ^ 63 - 1 - sint d) = 2 ^ 63 - 1 - sint d"
    using d by (intro signed_take_bit_int_eq_self) simp_all
  then show ?thesis
    by (simp add: sint_word_ariths sint_INT64_MAX)
qed

lemma guard_iff:
  "0 \<le> sint d \<Longrightarrow> (t <s INT64_MAX - d) = (sint t + sint d < 2 ^ 63 - 1)" for t d :: nsecs_t
  by (simp add: word_sless_alt sint_INT64_MAX_minus) arith

lemma sint_sum:
  "0 \<le> sint d \<Longrightarrow> sint t + sint d < 2 ^ 63 - 1 \<Longrightarrow> sint (t + d) = sint t + sint d"
  for t d :: nsecs_t
proof -
  assume d: "0 \<le> sint d" and lt: "sint t + sint d < 2 ^ 63 - 1"
  have "- (2 ^ 63) \<le> sint t" using sint_ge [of t] by simp
  then have "signed_take_bit 63 (sint t + sint d) = sint t + sint d"
    using d lt by (intro signed_take_bit_int_eq_self) simp_all
  then show ?thesis
    by (simp add: sint_word_ariths)
qed

lemma tables_writeCommand_duration:
  "mOpBuffer (writeCommand_duration dbg s lv lb d) =
     (if dbg then updateBuffer (mOpBuffer s) lb d else mOpBuffer s)"
  "mOpBufferPerFrame (writeCommand_duration dbg s lv lb d) =
     (if dbg \<and> mIsLogCommands s then updateBuffer (mOpBufferPerFrame s) lb d
      else mOpBufferPerFrame s)"
  "mIsLogCommands (writeCommand_duration dbg s lv lb d) = mIsLogCommands s"
  by (simp_all add: writeCommand_duration_eq writeCommand_fields)

lemma updateItem_in_range:
  assumes "0 \<le> sint d"
  shows "updateItem item d =
     (if sint (mTotalDuration item) + sint d < 2 ^ 63 - 1
      then item\<lparr>mCount := mCount item + 1,
                mMaxDuration := (if sint (mMaxDuration item) < sint d then d else mMaxDuration item),
                mTotalDuration := mTotalDuration item + d,
                mLastDuration := d\<rparr>
      else item\<lparr>mCount := 1, mMaxDuration := d, mTotalDuration := d, mLastDuration := d\<rparr>)"
proof -
  have "(sint (mTotalDuration item) < sint (INT64_MAX - d)) =
        (sint (mTotalDuration item) + sint d < 2 ^ 63 - 1)"
    using guard_iff [OF assms, of "mTotalDuration item"] by (simp add: word_sless_alt)
  then show ?thesis
    by (simp add: updateItem_def Let_def word_sless_alt)
qed

lemma sint_twice:
  "0 \<le> sint lv \<Longrightarrow> sint lv < 2 ^ 30 \<Longrightarrow> sint (2 * lv) = 2 * sint lv" for lv :: cint
proof -
  assume "0 \<le> sint lv" "sint lv < 2 ^ 30"
  then have "signed_take_bit 31 (2 * sint lv) = 2 * sint lv"
    by (intro signed_take_bit_int_eq_self) simp_all
  then show ?thesis
    by (simp add: sint_word_ariths)
qed

lemma writeCommands_writeCommand:
  "writeCommand (writeCommands s ws) lv lb = writeCommands s (ws @ [\<lparr>level = lv, label = lb\<rparr>])"
  by (simp add: writeCommands_snoc)

section \<open>Further facts\<close>

text \<open>The constructor as the source has it, with \<^verbatim>\<open>NUM_COMMANDS\<close> 50: a block of 51 slots.\<close>

lemma constructor_block:
  "length (mBuffer (new_DisplayListLogBuffer NUM_COMMANDS junk flag)) = 51 \<and>
   mBufferLast (new_DisplayListLogBuffer NUM_COMMANDS junk flag) = 50 \<and>
   ring_inv (new_DisplayListLogBuffer NUM_COMMANDS junk flag)"
  by (simp add: ring_inv_new)
     (simp add: new_DisplayListLogBuffer_def NUM_COMMANDS_def BUFFER_SIZE_def mBufferFirst_def)

lemma live_empty_iff: "ring_inv s \<Longrightarrow> (live s = []) = (mStart s = mEnd s)"
  using length_live [of s] by (auto simp: ring_inv_def split: if_splits)

lemma ring_inv_flags [simp]:
  "ring_inv (s\<lparr>mIsLogCommands := b, mOpBufferPerFrame := t\<rparr>) = ring_inv s"
  by (simp add: ring_inv_def)

lemma live_flags [simp]:
  "live (s\<lparr>mIsLogCommands := b, mOpBufferPerFrame := t\<rparr>) = live s"
  by (simp add: live_def)

lemma entryFor_Nil: "entryFor [] key = None"
  by (simp add: entryFor_def)

lemma outputCommandsInternal_state: "fst (outputCommandsInternal s file logd) = s"
  by (cases "file") (simp_all add: outputCommandsInternal_file outputCommandsInternal_log)

lemma outputCommands_state:
  "outputCommands s mem written logd = Some (Inr r) \<Longrightarrow> fst r = s"
  by (auto simp: outputCommands_def outputCommandsInternal_state
           split: option.splits sum.splits prod.splits)

text \<open>The tables stay ordered by key, as the class keeps them: a key has one position, the
  one that \<open>indexOfKey\<close> gives.\<close>

lemma keys_add: "fst ` set (add buffer key item) = insert key (fst ` set buffer)"
  by (induction buffer key item rule: add.induct) auto

lemma sorted_keys_add:
  "sorted_wrt (<) (map fst buffer) \<Longrightarrow> sorted_wrt (<) (map fst (add buffer key item))"
proof (induction buffer)
  case Nil
  show ?case by simp
next
  case (Cons kv kvs)
  obtain k v where kv: "kv = (k, v)" by (cases kv)
  have "fst ` set (add kvs key item) = insert key (fst ` set kvs)"
    by (rule keys_add)
  then show ?case
    using Cons kv by auto
qed

lemma keys_editValueAt: "map fst (editValueAt buffer index f) = map fst buffer"
proof (cases "index < length buffer")
  case True
  then show ?thesis
    by (intro nth_equalityI) (auto simp: editValueAt_def nth_list_update)
next
  case False
  then show ?thesis by (simp add: editValueAt_def list_update_beyond)
qed

lemma sorted_keys_updateBuffer:
  "sorted_wrt (<) (map fst buffer) \<Longrightarrow> sorted_wrt (<) (map fst (updateBuffer buffer lb duration))"
  by (simp add: updateBuffer_def sorted_keys_add keys_editValueAt split: option.splits)

section \<open>The claims\<close>

text \<open>
  C1. From a freshly constructed ring, after any sequence \<open>ws\<close> of calls of
  \<open>writeCommand(level, label)\<close>, \<open>outputCommands\<close> returns and has appended to the file
  exactly the lines of the written entries in write order when there are at most
  \<open>BUFFER_SIZE - 1\<close> of them, and otherwise exactly the lines of the most recent
  \<open>BUFFER_SIZE - 1\<close> entries in write order; the tables are empty, so nothing follows the
  lines. This holds for every value \<open>n\<close> of \<^verbatim>\<open>NUM_COMMANDS\<close>, 50 among them.
\<close>

theorem dump_after_writes:
  "outputCommands (writeCommands (new_DisplayListLogBuffer n junk flag) ws) mem written logd =
     Some (Inr (writeCommands (new_DisplayListLogBuffer n junk flag) ws,
                Some (written @ map (\<lambda>op. Text (command_line mem op))
                        (if length ws \<le> BUFFER_SIZE n - 1 then ws
                         else drop (length ws - (BUFFER_SIZE n - 1)) ws)),
                logd))"
  using writeCommands_ring [of n junk flag ws]
  by (simp add: outputCommands_ring report_def BUFFER_SIZE_def)

theorem dump_after_writes_witness:
  "outputCommands
     (writeCommands (new_DisplayListLogBuffer 2 (OpLog.make 0) True)
        [\<lparr>level = 0, label = 5\<rparr>, \<lparr>level = 1, label = 6\<rparr>, \<lparr>level = 0, label = 7\<rparr>])
     (\<lambda>p. if p = 5 then ''draw'' else if p = 6 then ''clip'' else ''save'') [] [] =
   Some (Inr (writeCommands (new_DisplayListLogBuffer 2 (OpLog.make 0) True)
        [\<lparr>level = 0, label = 5\<rparr>, \<lparr>level = 1, label = 6\<rparr>, \<lparr>level = 0, label = 7\<rparr>],
      Some [Text (''  clip'' @ [CHR 0x0A]), Text (''save'' @ [CHR 0x0A])], []))"
  using dump_after_writes [of 2 "OpLog.make 0" True
      "[\<lparr>level = 0, label = 5\<rparr>, \<lparr>level = 1, label = 6\<rparr>, \<lparr>level = 0, label = 7\<rparr>]"
      "\<lambda>p. if p = 5 then ''draw'' else if p = 6 then ''clip'' else ''save''" "[]" "[]"]
  by (simp add: BUFFER_SIZE_def command_line_def printf_star_s_def right_justify_def
        left_justify_def numeral_2_eq_2)

text \<open>
  C2. In every state that a sequence \<open>cs\<close> of calls of the two overloads of
  \<open>writeCommand\<close> reaches from the freshly constructed ring, the block has \<open>BUFFER_SIZE\<close>
  slots, \<open>mStart\<close> and \<open>mEnd\<close> point to slots of the block, the slots from \<open>mStart\<close> up to
  but excluding \<open>mEnd\<close>, modulo the capacity, hold the most recent logged entries in the
  order of the calls, they are at most \<open>BUFFER_SIZE - 1\<close>, and the ring is empty exactly
  when the cursors are equal. The freshly constructed ring is empty with equal cursors.
\<close>

theorem ring_invariant:
  "length (mBuffer (run_calls dbg (new_DisplayListLogBuffer n junk flag) cs)) = BUFFER_SIZE n \<and>
   mBufferLast (run_calls dbg (new_DisplayListLogBuffer n junk flag) cs) = BUFFER_SIZE n - 1 \<and>
   mStart (run_calls dbg (new_DisplayListLogBuffer n junk flag) cs) < BUFFER_SIZE n \<and>
   mEnd (run_calls dbg (new_DisplayListLogBuffer n junk flag) cs) < BUFFER_SIZE n \<and>
   live (run_calls dbg (new_DisplayListLogBuffer n junk flag) cs) =
     drop (length cs - (BUFFER_SIZE n - 1)) (map logged cs) \<and>
   length (live (run_calls dbg (new_DisplayListLogBuffer n junk flag) cs)) \<le> BUFFER_SIZE n - 1 \<and>
   (live (run_calls dbg (new_DisplayListLogBuffer n junk flag) cs) = []) =
     (mStart (run_calls dbg (new_DisplayListLogBuffer n junk flag) cs) =
      mEnd (run_calls dbg (new_DisplayListLogBuffer n junk flag) cs)) \<and>
   mStart (new_DisplayListLogBuffer n junk flag) = mEnd (new_DisplayListLogBuffer n junk flag) \<and>
   live (new_DisplayListLogBuffer n junk flag) = []"
proof -
  let ?s = "run_calls dbg (new_DisplayListLogBuffer n junk flag) cs"
  have r: "ring_inv ?s" "mBufferLast ?s = n" "live ?s = drop (length cs - n) (map logged cs)"
    using run_calls_ring [of dbg n junk flag cs] by simp_all
  have "length (mBuffer ?s) = n + 1" "mStart ?s < n + 1" "mEnd ?s < n + 1"
    using r(1,2) by (simp_all add: ring_inv_def)
  moreover have "(live ?s = []) = (mStart ?s = mEnd ?s)"
    by (rule live_empty_iff [OF r(1)])
  moreover have "mStart (new_DisplayListLogBuffer n junk flag) = mEnd (new_DisplayListLogBuffer n junk flag)"
    by (simp add: new_DisplayListLogBuffer_def)
  ultimately show ?thesis
    using r(2,3) by (simp add: BUFFER_SIZE_def live_new)
qed

theorem ring_invariant_witness:
  "mStart (run_calls True (new_DisplayListLogBuffer 2 (OpLog.make 0) True)
     [WriteCommand 0 5, WriteCommandDuration 1 6 40, WriteCommand 0 7]) < 3 \<and>
   mEnd (run_calls True (new_DisplayListLogBuffer 2 (OpLog.make 0) True)
     [WriteCommand 0 5, WriteCommandDuration 1 6 40, WriteCommand 0 7]) < 3 \<and>
   live (run_calls True (new_DisplayListLogBuffer 2 (OpLog.make 0) True)
     [WriteCommand 0 5, WriteCommandDuration 1 6 40, WriteCommand 0 7]) =
     [\<lparr>level = 1, label = 6\<rparr>, \<lparr>level = 0, label = 7\<rparr>]"
  using ring_invariant [of True 2 "OpLog.make 0" True
     "[WriteCommand 0 5, WriteCommandDuration 1 6 40, WriteCommand 0 7]"]
  by (simp add: BUFFER_SIZE_def del: run_calls.simps)

text \<open>
  C3, amended. With the aggregation compiled in, for every label, every duration \<open>d1\<close>
  and every duration \<open>d2 \<ge> 0\<close> with \<open>d1 + d2\<close> strictly below \<^verbatim>\<open>INT64_MAX\<close>: recording a
  label that a table does not hold puts there an entry with count 1 and total, maximum
  and last duration \<open>d1\<close>; recording the label again gives count 2, total \<open>d1 + d2\<close> (the
  sum of the integers), maximum the larger of the two and last \<open>d2\<close>. This is so in the
  all-time table always and in the per-frame table when \<open>mIsLogCommands\<close> is set; when
  it is not set the per-frame table is left as it is.
\<close>

theorem record_twice:
  "0 \<le> sint d2 \<Longrightarrow> sint d1 + sint d2 < sint INT64_MAX \<Longrightarrow>
   (entryFor (mOpBuffer s) lb = None \<longrightarrow>
      entryFor (mOpBuffer (writeCommand_duration True s lv1 lb d1)) lb =
        Some \<lparr>mName = lb, mCount = 1, mMaxDuration = d1, mTotalDuration = d1, mLastDuration = d1\<rparr> \<and>
      entryFor (mOpBuffer (writeCommand_duration True
                             (writeCommand_duration True s lv1 lb d1) lv2 lb d2)) lb =
        Some \<lparr>mName = lb, mCount = 2, mMaxDuration = (if sint d1 < sint d2 then d2 else d1),
              mTotalDuration = d1 + d2, mLastDuration = d2\<rparr>) \<and>
   (mIsLogCommands s \<and> entryFor (mOpBufferPerFrame s) lb = None \<longrightarrow>
      entryFor (mOpBufferPerFrame (writeCommand_duration True s lv1 lb d1)) lb =
        Some \<lparr>mName = lb, mCount = 1, mMaxDuration = d1, mTotalDuration = d1, mLastDuration = d1\<rparr> \<and>
      entryFor (mOpBufferPerFrame (writeCommand_duration True
                             (writeCommand_duration True s lv1 lb d1) lv2 lb d2)) lb =
        Some \<lparr>mName = lb, mCount = 2, mMaxDuration = (if sint d1 < sint d2 then d2 else d1),
              mTotalDuration = d1 + d2, mLastDuration = d2\<rparr>) \<and>
   (\<not> mIsLogCommands s \<longrightarrow>
      mOpBufferPerFrame (writeCommand_duration True
                             (writeCommand_duration True s lv1 lb d1) lv2 lb d2) =
        mOpBufferPerFrame s) \<and>
   sint (d1 + d2) = sint d1 + sint d2"
  by (simp add: tables_writeCommand_duration entryFor_updateBuffer updateItem_in_range
        sint_INT64_MAX sint_sum new_OpEntry_def)

theorem record_twice_witness:
  "0 \<le> sint (7 :: nsecs_t) \<and> sint (5 :: nsecs_t) + sint (7 :: nsecs_t) < sint INT64_MAX \<and>
   entryFor (mOpBuffer (new_DisplayListLogBuffer 50 (OpLog.make 0) True)) 3 = None \<and>
   mIsLogCommands (new_DisplayListLogBuffer 50 (OpLog.make 0) True) \<and>
   entryFor (mOpBufferPerFrame (new_DisplayListLogBuffer 50 (OpLog.make 0) True)) 3 = None \<and>
   entryFor (mOpBuffer (writeCommand_duration True
        (writeCommand_duration True (new_DisplayListLogBuffer 50 (OpLog.make 0) True) 0 3 5) 1 3 7)) 3 =
     Some \<lparr>mName = 3, mCount = 2, mMaxDuration = 7, mTotalDuration = 12, mLastDuration = 7\<rparr> \<and>
   entryFor (mOpBufferPerFrame (writeCommand_duration True
        (writeCommand_duration True (new_DisplayListLogBuffer 50 (OpLog.make 0) True) 0 3 5) 1 3 7)) 3 =
     Some \<lparr>mName = 3, mCount = 2, mMaxDuration = 7, mTotalDuration = 12, mLastDuration = 7\<rparr> \<and>
   \<not> mIsLogCommands (new_DisplayListLogBuffer 50 (OpLog.make 0) False) \<and>
   mOpBufferPerFrame (writeCommand_duration True
        (writeCommand_duration True (new_DisplayListLogBuffer 50 (OpLog.make 0) False) 0 3 5) 1 3 7) = []"
  using record_twice [of 7 5 "new_DisplayListLogBuffer 50 (OpLog.make 0) True" 3 0 1]
    record_twice [of 7 5 "new_DisplayListLogBuffer 50 (OpLog.make 0) False" 3 0 1]
  by (simp add: new_DisplayListLogBuffer_def entryFor_Nil sint_INT64_MAX)

text \<open>
  C3 as stated fails where the sum is exactly \<^verbatim>\<open>INT64_MAX\<close>: with \<open>d1 = INT64_MAX - 1\<close> and
  \<open>d2 = 1\<close> the sum does not overflow, and the second call leaves count 1 and total,
  maximum and last duration 1.
\<close>

theorem record_twice_counterexample:
  "sint (0x7FFFFFFFFFFFFFFE :: nsecs_t) + sint (1 :: nsecs_t) = sint INT64_MAX \<and>
   entryFor (mOpBuffer (new_DisplayListLogBuffer 50 (OpLog.make 0) False)) 3 = None \<and>
   entryFor (mOpBuffer (writeCommand_duration True
        (writeCommand_duration True (new_DisplayListLogBuffer 50 (OpLog.make 0) False)
           0 3 0x7FFFFFFFFFFFFFFE) 0 3 1)) 3 =
     Some \<lparr>mName = 3, mCount = 1, mMaxDuration = 1, mTotalDuration = 1, mLastDuration = 1\<rparr>"
  by (simp add: tables_writeCommand_duration entryFor_updateBuffer new_DisplayListLogBuffer_def
        new_OpEntry_def entryFor_Nil updateItem_def sint_INT64_MAX word_sless_alt INT64_MAX_def)

text \<open>
  C4, amended. With the aggregation compiled in, for every entry that a table holds for
  the label, with total \<open>t\<close>, and every recorded duration \<open>d \<ge> 0\<close>: the entry accumulates
  (count plus one in \<^verbatim>\<open>int\<close>, the maximum updated, total \<open>t + d\<close>, which is then the sum
  of the integers) if and only if \<open>t + d\<close> is strictly below \<^verbatim>\<open>INT64_MAX\<close>; otherwise the count is
  reset to 1 and total and maximum are set to \<open>d\<close>. The last duration is \<open>d\<close> in both
  cases. This is so in the all-time table, and in the per-frame table when
  \<open>mIsLogCommands\<close> is set.
\<close>

theorem accumulate_below_max:
  "0 \<le> sint duration \<Longrightarrow>
   (entryFor (mOpBuffer s) lb = Some item \<longrightarrow>
      entryFor (mOpBuffer (writeCommand_duration True s lv lb duration)) lb =
        Some (if sint (mTotalDuration item) + sint duration < sint INT64_MAX
              then item\<lparr>mCount := mCount item + 1,
                        mMaxDuration := (if sint (mMaxDuration item) < sint duration then duration
                                         else mMaxDuration item),
                        mTotalDuration := mTotalDuration item + duration,
                        mLastDuration := duration\<rparr>
              else item\<lparr>mCount := 1, mMaxDuration := duration, mTotalDuration := duration,
                        mLastDuration := duration\<rparr>)) \<and>
   (mIsLogCommands s \<and> entryFor (mOpBufferPerFrame s) lb = Some item \<longrightarrow>
      entryFor (mOpBufferPerFrame (writeCommand_duration True s lv lb duration)) lb =
        Some (if sint (mTotalDuration item) + sint duration < sint INT64_MAX
              then item\<lparr>mCount := mCount item + 1,
                        mMaxDuration := (if sint (mMaxDuration item) < sint duration then duration
                                         else mMaxDuration item),
                        mTotalDuration := mTotalDuration item + duration,
                        mLastDuration := duration\<rparr>
              else item\<lparr>mCount := 1, mMaxDuration := duration, mTotalDuration := duration,
                        mLastDuration := duration\<rparr>)) \<and>
   (sint (mTotalDuration item) + sint duration < sint INT64_MAX \<longrightarrow>
      sint (mTotalDuration item + duration) = sint (mTotalDuration item) + sint duration)"
  by (simp add: tables_writeCommand_duration entryFor_updateBuffer updateItem_in_range
        sint_INT64_MAX sint_sum)

theorem accumulate_below_max_witness:
  "0 \<le> sint (2 :: nsecs_t) \<and>
   entryFor (mOpBuffer (writeCommand_duration True
       (new_DisplayListLogBuffer 50 (OpLog.make 0) True) 0 7 40)) 7 =
     Some \<lparr>mName = 7, mCount = 1, mMaxDuration = 40, mTotalDuration = 40, mLastDuration = 40\<rparr> \<and>
   mIsLogCommands (writeCommand_duration True
       (new_DisplayListLogBuffer 50 (OpLog.make 0) True) 0 7 40) \<and>
   entryFor (mOpBufferPerFrame (writeCommand_duration True
       (new_DisplayListLogBuffer 50 (OpLog.make 0) True) 0 7 40)) 7 =
     Some \<lparr>mName = 7, mCount = 1, mMaxDuration = 40, mTotalDuration = 40, mLastDuration = 40\<rparr> \<and>
   sint (40 :: nsecs_t) + sint (2 :: nsecs_t) < sint INT64_MAX \<and>
   entryFor (mOpBuffer (writeCommand_duration True (writeCommand_duration True
       (new_DisplayListLogBuffer 50 (OpLog.make 0) True) 0 7 40) 1 7 2)) 7 =
     Some \<lparr>mName = 7, mCount = 2, mMaxDuration = 40, mTotalDuration = 42, mLastDuration = 2\<rparr> \<and>
   entryFor (mOpBufferPerFrame (writeCommand_duration True (writeCommand_duration True
       (new_DisplayListLogBuffer 50 (OpLog.make 0) True) 0 7 40) 1 7 2)) 7 =
     Some \<lparr>mName = 7, mCount = 2, mMaxDuration = 40, mTotalDuration = 42, mLastDuration = 2\<rparr>"
  using accumulate_below_max [of 2
      "writeCommand_duration True (new_DisplayListLogBuffer 50 (OpLog.make 0) True) 0 7 40" 7
      "\<lparr>mName = 7, mCount = 1, mMaxDuration = 40, mTotalDuration = 40, mLastDuration = 40\<rparr>" 1]
  by (simp add: tables_writeCommand_duration entryFor_updateBuffer new_DisplayListLogBuffer_def
        new_OpEntry_def entryFor_Nil sint_INT64_MAX)

text \<open>
  C4 as stated fails where \<open>t + d\<close> is exactly \<^verbatim>\<open>INT64_MAX\<close>: an entry with total
  \<^verbatim>\<open>INT64_MAX\<close> and a recorded duration 0 would not overflow, and the entry is reset to
  count 1 with total and maximum 0.
\<close>

theorem accumulate_iff_no_overflow_counterexample:
  "entryFor (mOpBuffer (writeCommand_duration True
       (new_DisplayListLogBuffer 50 (OpLog.make 0) False) 0 7 INT64_MAX)) 7 =
     Some \<lparr>mName = 7, mCount = 1, mMaxDuration = INT64_MAX, mTotalDuration = INT64_MAX,
           mLastDuration = INT64_MAX\<rparr> \<and>
   - (2 ^ 63) \<le> sint INT64_MAX + sint (0 :: nsecs_t) \<and>
   sint INT64_MAX + sint (0 :: nsecs_t) \<le> 2 ^ 63 - 1 \<and>
   entryFor (mOpBuffer (writeCommand_duration True (writeCommand_duration True
       (new_DisplayListLogBuffer 50 (OpLog.make 0) False) 0 7 INT64_MAX) 0 7 0)) 7 =
     Some \<lparr>mName = 7, mCount = 1, mMaxDuration = 0, mTotalDuration = 0, mLastDuration = 0\<rparr>"
  by (simp add: tables_writeCommand_duration entryFor_updateBuffer new_DisplayListLogBuffer_def
        new_OpEntry_def entryFor_Nil updateItem_def sint_INT64_MAX word_sless_alt)

text \<open>
  C5. \<open>outputCommandsInternal\<close> emits the report of the all-time table to a file, and
  without a file the report of the per-frame table to the log when \<open>mIsLogCommands\<close> is
  set. The report of an empty table is nothing, not even the header; the report of any
  other table is the header followed by the rows of a list that holds each entry of the
  table exactly once and in which no entry has a larger total than one before it. A table
  with the totals 30, 10, 20 is reported in the order 30, 20, 10.
\<close>

theorem report_ordered:
  "outputCommandsInternal s (Some written) logd =
     (s, Some (written @ report (Text (CHR 0x0A # header_columns @ [CHR 0x0A])) (mOpBuffer s)), logd) \<and>
   outputCommandsInternal s None logd =
     (s, None, logd @ (if mIsLogCommands s then report (Text header_columns) (mOpBufferPerFrame s)
                       else [])) \<and>
   report header [] = [] \<and>
   (ops \<noteq> [] \<longrightarrow>
      report header ops = header # map StatRow (orderedList ops) \<and>
      mset (orderedList ops) = mset (map snd ops) \<and>
      descending (orderedList ops)) \<and>
   map mTotalDuration
     (orderedList [(k1, new_OpEntry k1 1 30), (k2, new_OpEntry k2 1 10), (k3, new_OpEntry k3 1 20)]) =
     [30, 20, 10]"
proof (intro conjI impI)
  show "map mTotalDuration
     (orderedList [(k1, new_OpEntry k1 1 30), (k2, new_OpEntry k2 1 10), (k3, new_OpEntry k3 1 20)]) =
     [30, 20, 10]"
    by (simp add: orderedList_fold valueAt_def new_OpEntry_def insertAt_0 insertAt_Suc)
qed (simp_all add: outputCommandsInternal_file outputCommandsInternal_log report_def
       mset_orderedList descending_orderedList)

theorem report_ordered_witness:
  "[(1, new_OpEntry 1 1 30), (2, new_OpEntry 2 1 10), (3, new_OpEntry 3 1 20)] \<noteq> [] \<and>
   report (Text header_columns)
     [(1, new_OpEntry 1 1 30), (2, new_OpEntry 2 1 10), (3, new_OpEntry 3 1 20)] =
   [Text header_columns, StatRow (new_OpEntry 1 1 30), StatRow (new_OpEntry 3 1 20),
    StatRow (new_OpEntry 2 1 10)] \<and>
   descending [new_OpEntry 1 1 30, new_OpEntry 3 1 20, new_OpEntry 2 1 10]"
  using report_ordered [of _ _ _ "Text header_columns"
      "[(1, new_OpEntry 1 1 30), (2, new_OpEntry 2 1 10), (3, new_OpEntry 3 1 20)]"]
  by (simp add: orderedList_fold valueAt_def new_OpEntry_def insertAt_0 insertAt_Suc)

text \<open>
  C6. \<open>preFlush\<close> leaves the all-time table as it is. With the aggregation compiled in,
  the object after \<open>preFlush\<close> is the object before it with \<open>mIsLogCommands\<close> set from the
  property just read and the per-frame table emptied when the property is "1", left as it
  is otherwise: the block, the cursors and the all-time table are not touched. Without
  the aggregation \<open>preFlush\<close> does nothing. No other operation than the recording
  overload changes the all-time table: \<open>writeCommand(level, label)\<close>,
  \<open>outputCommandsInternal\<close>, \<open>postFlush\<close> and \<open>outputCommands\<close> leave it, the last three
  with the whole object, as it is.
\<close>

theorem all_time_table_kept:
  "mOpBuffer (preFlush dbg val s) = mOpBuffer s \<and>
   preFlush True val s =
     s\<lparr>mIsLogCommands := (val = ''1''),
       mOpBufferPerFrame := (if val = ''1'' then [] else mOpBufferPerFrame s)\<rparr> \<and>
   mIsLogCommands (preFlush True val s) = (val = ''1'') \<and>
   mOpBufferPerFrame (preFlush True val s) = (if val = ''1'' then [] else mOpBufferPerFrame s) \<and>
   preFlush False val s = s \<and>
   mOpBuffer (writeCommand s lv lb) = mOpBuffer s \<and>
   fst (outputCommandsInternal s file logd) = s \<and>
   fst (postFlush dbg s logd) = s \<and>
   (case outputCommands s mem written logd of Some (Inr r) \<Rightarrow> fst r = s | _ \<Rightarrow> True)"
proof (intro conjI)
  show "case outputCommands s mem written logd of Some (Inr r) \<Rightarrow> fst r = s | _ \<Rightarrow> True"
    by (auto simp: outputCommands_state split: option.splits sum.splits)
qed (simp_all add: preFlush_def Let_def writeCommand_fields outputCommandsInternal_state postFlush_def)

theorem all_time_table_kept_witness:
  "mOpBuffer (preFlush True ''1''
     \<lparr>mBuffer = [\<lparr>level = 0, label = 5\<rparr>], mStart = 0, mEnd = 0, mBufferLast = 0,
       mOpBuffer = [(5, new_OpEntry 5 1 30)], mOpBufferPerFrame = [(5, new_OpEntry 5 1 30)],
       mIsLogCommands = False\<rparr>) = [(5, new_OpEntry 5 1 30)] \<and>
   mOpBufferPerFrame (preFlush True ''1''
     \<lparr>mBuffer = [\<lparr>level = 0, label = 5\<rparr>], mStart = 0, mEnd = 0, mBufferLast = 0,
       mOpBuffer = [(5, new_OpEntry 5 1 30)], mOpBufferPerFrame = [(5, new_OpEntry 5 1 30)],
       mIsLogCommands = False\<rparr>) = [] \<and>
   mIsLogCommands (preFlush True ''1''
     \<lparr>mBuffer = [\<lparr>level = 0, label = 5\<rparr>], mStart = 0, mEnd = 0, mBufferLast = 0,
       mOpBuffer = [(5, new_OpEntry 5 1 30)], mOpBufferPerFrame = [(5, new_OpEntry 5 1 30)],
       mIsLogCommands = False\<rparr>) \<and>
   preFlush True ''1''
     \<lparr>mBuffer = [\<lparr>level = 0, label = 5\<rparr>], mStart = 0, mEnd = 0, mBufferLast = 0,
       mOpBuffer = [(5, new_OpEntry 5 1 30)], mOpBufferPerFrame = [(5, new_OpEntry 5 1 30)],
       mIsLogCommands = False\<rparr> =
     \<lparr>mBuffer = [\<lparr>level = 0, label = 5\<rparr>], mStart = 0, mEnd = 0, mBufferLast = 0,
       mOpBuffer = [(5, new_OpEntry 5 1 30)], mOpBufferPerFrame = [],
       mIsLogCommands = True\<rparr>"
  using all_time_table_kept [of True "''1''"
     "\<lparr>mBuffer = [\<lparr>level = 0, label = 5\<rparr>], mStart = 0, mEnd = 0, mBufferLast = 0,
       mOpBuffer = [(5, new_OpEntry 5 1 30)], mOpBufferPerFrame = [(5, new_OpEntry 5 1 30)],
       mIsLogCommands = False\<rparr>"]
  by simp

text \<open>
  C7. In every state in which both cursors point into the block, the loop of
  \<open>outputCommands\<close> ends, with its cursor at \<open>mEnd\<close>, having appended one line for each
  live entry: one iteration for each, fewer than the capacity. \<open>outputCommands\<close> then
  returns the object as it was and the log as it was; the file keeps what had been
  written to it, with the output appended.
\<close>

theorem outputCommands_terminates:
  "ring_inv s \<Longrightarrow>
   outputCommands_loop s mem (mStart s) written =
     Some (Inr (mEnd s, written @ map (\<lambda>op. Text (command_line mem op)) (live s))) \<and>
   length (live s) < mBufferLast s + 1 \<and>
   (\<exists>appended. outputCommands s mem written logd = Some (Inr (s, Some (written @ appended), logd)))"
proof (intro conjI)
  assume inv: "ring_inv s"
  then show "outputCommands_loop s mem (mStart s) written =
     Some (Inr (mEnd s, written @ map (\<lambda>op. Text (command_line mem op)) (live s)))"
    using outputCommands_loop_emits [of s "mStart s" mem written]
    by (simp add: ring_inv_def live_def comp_def)
  show "length (live s) < mBufferLast s + 1"
    using inv length_live [OF inv] by (auto simp: ring_inv_def)
  show "\<exists>appended. outputCommands s mem written logd = Some (Inr (s, Some (written @ appended), logd))"
    by (simp add: outputCommands_ring [OF inv])
qed

theorem outputCommands_terminates_witness:
  "ring_inv \<lparr>mBuffer = [\<lparr>level = 0, label = 5\<rparr>, \<lparr>level = 1, label = 6\<rparr>, \<lparr>level = 0, label = 7\<rparr>],
       mStart = 2, mEnd = 1, mBufferLast = 2, mOpBuffer = [], mOpBufferPerFrame = [],
       mIsLogCommands = False\<rparr> \<and>
   outputCommands_loop
     \<lparr>mBuffer = [\<lparr>level = 0, label = 5\<rparr>, \<lparr>level = 1, label = 6\<rparr>, \<lparr>level = 0, label = 7\<rparr>],
       mStart = 2, mEnd = 1, mBufferLast = 2, mOpBuffer = [], mOpBufferPerFrame = [],
       mIsLogCommands = False\<rparr>
     (\<lambda>p. if p = 5 then ''draw'' else if p = 6 then ''clip'' else ''save'') 2 [] =
   Some (Inr (1, [Text (''save'' @ [CHR 0x0A]), Text (''draw'' @ [CHR 0x0A])]))"
  using outputCommands_terminates [of
     "\<lparr>mBuffer = [\<lparr>level = 0, label = 5\<rparr>, \<lparr>level = 1, label = 6\<rparr>, \<lparr>level = 0, label = 7\<rparr>],
       mStart = 2, mEnd = 1, mBufferLast = 2, mOpBuffer = [], mOpBufferPerFrame = [],
       mIsLogCommands = False\<rparr>"
     "\<lambda>p. if p = 5 then ''draw'' else if p = 6 then ''clip'' else ''save''" "[]" "[]"]
  by (simp add: ring_inv_def live_def slots_between_def upt_rec command_line_def printf_star_s_def
        right_justify_def)

text \<open>
  C8. In every state in which both cursors point into the block, \<open>outputCommands\<close>
  appends to its file the lines of the live entries, oldest first, and after them the
  report of the all-time table \<open>mOpBuffer\<close>; the output is the same whatever
  \<open>mIsLogCommands\<close> and the per-frame table are.
\<close>

theorem outputCommands_dump_then_all_time_report:
  "ring_inv s \<Longrightarrow>
   outputCommands s mem written logd =
     Some (Inr (s, Some (written @ map (\<lambda>op. Text (command_line mem op)) (live s) @
                    report (Text (CHR 0x0A # header_columns @ [CHR 0x0A])) (mOpBuffer s)), logd)) \<and>
   outputCommands (s\<lparr>mIsLogCommands := b, mOpBufferPerFrame := t\<rparr>) mem written logd =
     Some (Inr (s\<lparr>mIsLogCommands := b, mOpBufferPerFrame := t\<rparr>,
                Some (written @ map (\<lambda>op. Text (command_line mem op)) (live s) @
                    report (Text (CHR 0x0A # header_columns @ [CHR 0x0A])) (mOpBuffer s)), logd))"
proof -
  assume inv: "ring_inv s"
  let ?s' = "s\<lparr>mIsLogCommands := b, mOpBufferPerFrame := t\<rparr>"
  have inv': "ring_inv ?s'"
    using inv by simp
  have same: "live ?s' = live s" "mOpBuffer ?s' = mOpBuffer s"
    by simp_all
  have "outputCommands ?s' mem written logd =
     Some (Inr (?s', Some (written @ map (\<lambda>op. Text (command_line mem op)) (live ?s') @
                    report (Text (CHR 0x0A # header_columns @ [CHR 0x0A])) (mOpBuffer ?s')), logd))"
    by (rule outputCommands_ring [OF inv'])
  then show ?thesis
    using outputCommands_ring [OF inv, of mem written logd] by (simp only: same)
qed

theorem outputCommands_dump_then_all_time_report_witness:
  "ring_inv \<lparr>mBuffer = [\<lparr>level = 0, label = 5\<rparr>, \<lparr>level = 1, label = 6\<rparr>, \<lparr>level = 0, label = 7\<rparr>],
       mStart = 2, mEnd = 1, mBufferLast = 2,
       mOpBuffer = [(5, \<lparr>mName = 5, mCount = 1, mMaxDuration = 30, mTotalDuration = 30, mLastDuration = 30\<rparr>),
                    (7, \<lparr>mName = 7, mCount = 2, mMaxDuration = 40, mTotalDuration = 50, mLastDuration = 10\<rparr>)],
       mOpBufferPerFrame = [(6, \<lparr>mName = 6, mCount = 1, mMaxDuration = 9, mTotalDuration = 9, mLastDuration = 9\<rparr>)],
       mIsLogCommands = True\<rparr> \<and>
   outputCommands
     \<lparr>mBuffer = [\<lparr>level = 0, label = 5\<rparr>, \<lparr>level = 1, label = 6\<rparr>, \<lparr>level = 0, label = 7\<rparr>],
       mStart = 2, mEnd = 1, mBufferLast = 2,
       mOpBuffer = [(5, \<lparr>mName = 5, mCount = 1, mMaxDuration = 30, mTotalDuration = 30, mLastDuration = 30\<rparr>),
                    (7, \<lparr>mName = 7, mCount = 2, mMaxDuration = 40, mTotalDuration = 50, mLastDuration = 10\<rparr>)],
       mOpBufferPerFrame = [(6, \<lparr>mName = 6, mCount = 1, mMaxDuration = 9, mTotalDuration = 9, mLastDuration = 9\<rparr>)],
       mIsLogCommands = True\<rparr>
     (\<lambda>p. if p = 5 then ''draw'' else if p = 6 then ''clip'' else ''save'') [] [] =
   Some (Inr (\<lparr>mBuffer = [\<lparr>level = 0, label = 5\<rparr>, \<lparr>level = 1, label = 6\<rparr>, \<lparr>level = 0, label = 7\<rparr>],
       mStart = 2, mEnd = 1, mBufferLast = 2,
       mOpBuffer = [(5, \<lparr>mName = 5, mCount = 1, mMaxDuration = 30, mTotalDuration = 30, mLastDuration = 30\<rparr>),
                    (7, \<lparr>mName = 7, mCount = 2, mMaxDuration = 40, mTotalDuration = 50, mLastDuration = 10\<rparr>)],
       mOpBufferPerFrame = [(6, \<lparr>mName = 6, mCount = 1, mMaxDuration = 9, mTotalDuration = 9, mLastDuration = 9\<rparr>)],
       mIsLogCommands = True\<rparr>,
     Some [Text (''save'' @ [CHR 0x0A]), Text (''draw'' @ [CHR 0x0A]),
           Text (CHR 0x0A # header_columns @ [CHR 0x0A]),
           StatRow \<lparr>mName = 7, mCount = 2, mMaxDuration = 40, mTotalDuration = 50, mLastDuration = 10\<rparr>,
           StatRow \<lparr>mName = 5, mCount = 1, mMaxDuration = 30, mTotalDuration = 30, mLastDuration = 30\<rparr>],
     []))"
  using outputCommands_dump_then_all_time_report [of
     "\<lparr>mBuffer = [\<lparr>level = 0, label = 5\<rparr>, \<lparr>level = 1, label = 6\<rparr>, \<lparr>level = 0, label = 7\<rparr>],
       mStart = 2, mEnd = 1, mBufferLast = 2,
       mOpBuffer = [(5, \<lparr>mName = 5, mCount = 1, mMaxDuration = 30, mTotalDuration = 30, mLastDuration = 30\<rparr>),
                    (7, \<lparr>mName = 7, mCount = 2, mMaxDuration = 40, mTotalDuration = 50, mLastDuration = 10\<rparr>)],
       mOpBufferPerFrame = [(6, \<lparr>mName = 6, mCount = 1, mMaxDuration = 9, mTotalDuration = 9, mLastDuration = 9\<rparr>)],
       mIsLogCommands = True\<rparr>"
     "\<lambda>p. if p = 5 then ''draw'' else if p = 6 then ''clip'' else ''save''" "[]" "[]"]
  by (simp add: ring_inv_def live_def slots_between_def upt_rec command_line_def printf_star_s_def
        right_justify_def report_def orderedList_fold valueAt_def insertAt_0 insertAt_Suc)

text \<open>
  C9. The line of an entry is \<open>2 * level\<close> spaces, the label and a newline, for a nesting
  level from 0 up to \<open>2 ^ 30 - 1\<close> (beyond it \<^verbatim>\<open>2 * level\<close> leaves the range of \<^verbatim>\<open>int\<close>).
  With \<^verbatim>\<open>NUM_COMMANDS\<close> 3, that is 4 slots, and any labels \<open>a\<close>, \<open>b\<close>, \<open>c\<close>, \<open>d\<close>: after
  the writes \<open>(0, a)\<close>, \<open>(1, b)\<close>, \<open>(0, c)\<close> the dump is the lines of \<open>a\<close>, of \<open>b\<close> behind
  two spaces, and of \<open>c\<close>; after a fourth write \<open>(0, d)\<close> it is the lines of \<open>b\<close> behind
  two spaces, of \<open>c\<close> and of \<open>d\<close>.
\<close>

theorem command_lines:
  "(0 \<le> sint lv \<and> sint lv < 2 ^ 30 \<longrightarrow>
      command_line mem \<lparr>level = lv, label = lb\<rparr> =
        replicate (2 * nat (sint lv)) CHR '' '' @ mem lb @ [CHR 0x0A]) \<and>
   outputCommands
     (writeCommands (new_DisplayListLogBuffer 3 junk flag)
        [\<lparr>level = 0, label = a\<rparr>, \<lparr>level = 1, label = b\<rparr>, \<lparr>level = 0, label = c\<rparr>])
     mem [] logd =
   Some (Inr (writeCommands (new_DisplayListLogBuffer 3 junk flag)
        [\<lparr>level = 0, label = a\<rparr>, \<lparr>level = 1, label = b\<rparr>, \<lparr>level = 0, label = c\<rparr>],
      Some [Text (mem a @ [CHR 0x0A]), Text (''  '' @ mem b @ [CHR 0x0A]), Text (mem c @ [CHR 0x0A])],
      logd)) \<and>
   outputCommands
     (writeCommand
       (writeCommands (new_DisplayListLogBuffer 3 junk flag)
          [\<lparr>level = 0, label = a\<rparr>, \<lparr>level = 1, label = b\<rparr>, \<lparr>level = 0, label = c\<rparr>])
       0 d)
     mem [] logd =
   Some (Inr (writeCommand
       (writeCommands (new_DisplayListLogBuffer 3 junk flag)
          [\<lparr>level = 0, label = a\<rparr>, \<lparr>level = 1, label = b\<rparr>, \<lparr>level = 0, label = c\<rparr>])
       0 d,
      Some [Text (''  '' @ mem b @ [CHR 0x0A]), Text (mem c @ [CHR 0x0A]), Text (mem d @ [CHR 0x0A])],
      logd))"
proof (intro conjI impI)
  assume "0 \<le> sint lv \<and> sint lv < 2 ^ 30"
  then show "command_line mem \<lparr>level = lv, label = lb\<rparr> =
        replicate (2 * nat (sint lv)) CHR '' '' @ mem lb @ [CHR 0x0A]"
    by (simp add: command_line_def printf_star_s_def right_justify_def sint_twice nat_mult_distrib)
next
  let ?ws = "[\<lparr>level = 0, label = a\<rparr>, \<lparr>level = 1, label = b\<rparr>, \<lparr>level = 0, label = c\<rparr>]"
  have lines: "command_line mem \<lparr>level = 0, label = x\<rparr> = mem x @ [CHR 0x0A]"
     "command_line mem \<lparr>level = 1, label = x\<rparr> = ''  '' @ mem x @ [CHR 0x0A]" for x
    by (simp_all add: command_line_def printf_star_s_def right_justify_def numeral_2_eq_2)
  show "outputCommands (writeCommands (new_DisplayListLogBuffer 3 junk flag) ?ws) mem [] logd =
   Some (Inr (writeCommands (new_DisplayListLogBuffer 3 junk flag) ?ws,
      Some [Text (mem a @ [CHR 0x0A]), Text (''  '' @ mem b @ [CHR 0x0A]), Text (mem c @ [CHR 0x0A])],
      logd))"
    using writeCommands_ring [of 3 junk flag ?ws]
    by (simp add: outputCommands_ring report_def lines del: writeCommands.simps)
  show "outputCommands (writeCommand (writeCommands (new_DisplayListLogBuffer 3 junk flag) ?ws) 0 d) mem [] logd =
   Some (Inr (writeCommand (writeCommands (new_DisplayListLogBuffer 3 junk flag) ?ws) 0 d,
      Some [Text (''  '' @ mem b @ [CHR 0x0A]), Text (mem c @ [CHR 0x0A]), Text (mem d @ [CHR 0x0A])],
      logd))"
    using writeCommands_ring [of 3 junk flag "?ws @ [\<lparr>level = 0, label = d\<rparr>]"]
    by (simp add: writeCommands_writeCommand outputCommands_ring report_def lines del: writeCommands.simps)
qed

theorem command_lines_witness:
  "0 \<le> sint (3 :: cint) \<and> sint (3 :: cint) < 2 ^ 30 \<and>
   command_line (\<lambda>p. if p = 1 then ''A'' else if p = 2 then ''B'' else if p = 3 then ''C'' else ''D'')
     \<lparr>level = 3, label = 1\<rparr> = ''      A'' @ [CHR 0x0A] \<and>
   outputCommands
     (writeCommands (new_DisplayListLogBuffer 3 (OpLog.make 0) False)
        [\<lparr>level = 0, label = 1\<rparr>, \<lparr>level = 1, label = 2\<rparr>, \<lparr>level = 0, label = 3\<rparr>])
     (\<lambda>p. if p = 1 then ''A'' else if p = 2 then ''B'' else if p = 3 then ''C'' else ''D'') [] [] =
   Some (Inr (writeCommands (new_DisplayListLogBuffer 3 (OpLog.make 0) False)
        [\<lparr>level = 0, label = 1\<rparr>, \<lparr>level = 1, label = 2\<rparr>, \<lparr>level = 0, label = 3\<rparr>],
      Some [Text (''A'' @ [CHR 0x0A]), Text (''  B'' @ [CHR 0x0A]), Text (''C'' @ [CHR 0x0A])], [])) \<and>
   outputCommands
     (writeCommand
       (writeCommands (new_DisplayListLogBuffer 3 (OpLog.make 0) False)
          [\<lparr>level = 0, label = 1\<rparr>, \<lparr>level = 1, label = 2\<rparr>, \<lparr>level = 0, label = 3\<rparr>])
       0 4)
     (\<lambda>p. if p = 1 then ''A'' else if p = 2 then ''B'' else if p = 3 then ''C'' else ''D'') [] [] =
   Some (Inr (writeCommand
       (writeCommands (new_DisplayListLogBuffer 3 (OpLog.make 0) False)
          [\<lparr>level = 0, label = 1\<rparr>, \<lparr>level = 1, label = 2\<rparr>, \<lparr>level = 0, label = 3\<rparr>])
       0 4,
      Some [Text (''  B'' @ [CHR 0x0A]), Text (''C'' @ [CHR 0x0A]), Text (''D'' @ [CHR 0x0A])], []))"
  using command_lines [of 3
      "\<lambda>p. if p = 1 then ''A'' else if p = 2 then ''B'' else if p = 3 then ''C'' else ''D''" 1
      "OpLog.make 0" False 1 2 3 "[]" 4]
  by (simp add: eval_nat_numeral del: writeCommands.simps)

text \<open>
  C10. A recording call for the label \<open>lb\<close> leaves the entry of every other label \<open>lb'\<close> as
  it was, in the all-time table and in the per-frame table: a label that had no entry has
  none, and one that had an entry has the same.
\<close>

theorem other_labels_untouched:
  "lb' \<noteq> lb \<Longrightarrow>
   entryFor (mOpBuffer (writeCommand_duration dbg s lv lb duration)) lb' = entryFor (mOpBuffer s) lb' \<and>
   entryFor (mOpBufferPerFrame (writeCommand_duration dbg s lv lb duration)) lb' =
     entryFor (mOpBufferPerFrame s) lb'"
proof -
  assume other: "lb' \<noteq> lb"
  have kept: "entryFor (updateBuffer buffer lb duration) lb' = entryFor buffer lb'" for buffer
    using other by (simp add: entryFor_updateBuffer)
  show ?thesis
  proof (cases dbg)
    case True
    then show ?thesis
      by (cases "mIsLogCommands s") (simp_all add: tables_writeCommand_duration kept)
  next
    case False
    then show ?thesis
      by (simp add: tables_writeCommand_duration)
  qed
qed

theorem other_labels_untouched_witness:
  "(6 :: cstr) \<noteq> 5 \<and>
   entryFor (mOpBuffer (writeCommand_duration True
      (writeCommand_duration True (new_DisplayListLogBuffer 50 (OpLog.make 0) True) 0 6 40) 1 5 70)) 6 =
     Some \<lparr>mName = 6, mCount = 1, mMaxDuration = 40, mTotalDuration = 40, mLastDuration = 40\<rparr> \<and>
   entryFor (mOpBufferPerFrame (writeCommand_duration True
      (writeCommand_duration True (new_DisplayListLogBuffer 50 (OpLog.make 0) True) 0 6 40) 1 5 70)) 6 =
     Some \<lparr>mName = 6, mCount = 1, mMaxDuration = 40, mTotalDuration = 40, mLastDuration = 40\<rparr>"
  using other_labels_untouched [of 6 5 True
      "writeCommand_duration True (new_DisplayListLogBuffer 50 (OpLog.make 0) True) 0 6 40" 1 70]
  by (simp add: tables_writeCommand_duration entryFor_updateBuffer new_DisplayListLogBuffer_def
        new_OpEntry_def entryFor_Nil)

end
